theory Spec2Isabelle
  imports Main "HOL-Library.Word"
begin

section \<open>Data model (linkedlist.h)\<close>

text \<open>
  A payload is the block of bytes a node's \<^verbatim>\<open>data\<close> pointer refers to.
  A \<^verbatim>\<open>struct sll_node*\<close> is either \<^verbatim>\<open>NULL\<close> or points to a node that holds its
  payload and its \<^verbatim>\<open>next\<close> pointer. Every node is owned by exactly one predecessor
  (the list's \<^verbatim>\<open>head\<close> or another node's \<^verbatim>\<open>next\<close>) and the chain is finite, so the
  pointer structure is a datatype and every pointer walk of the source is a structural
  recursion. \<^verbatim>\<open>size_t\<close> values are natural numbers: the only subtraction of the source,
  \<^verbatim>\<open>index - 1\<close>, is evaluated after \<^verbatim>\<open>index == 0\<close> has returned, and the only
  increments count loop iterations bounded by \<^verbatim>\<open>index\<close> or by the number of nodes.
\<close>

type_synonym byte = "8 word"
type_synonym bytes = "byte list"

datatype sll_node_ptr = NULL | Node (node_data: bytes) (node_next: sll_node_ptr)

record sllist =
  head :: sll_node_ptr
  data_size :: nat

text \<open>
  A \<^verbatim>\<open>sllist*\<close> argument is \<open>None\<close> for \<^verbatim>\<open>NULL\<close> and \<open>Some l\<close> for a pointer to a list
  object whose contents are \<open>l\<close>; a \<^verbatim>\<open>void* data\<close> argument is \<open>None\<close> for \<^verbatim>\<open>NULL\<close> and
  \<open>Some src\<close> for a pointer to the caller's bytes \<open>src\<close>. Dereferencing \<^verbatim>\<open>NULL\<close> is an
  explicit fault.
\<close>

datatype fault = Null_dereference

section \<open>The C library calls the source makes\<close>

text \<open>
  Each call of \<^verbatim>\<open>malloc\<close>, \<^verbatim>\<open>free\<close>, \<^verbatim>\<open>memcpy\<close> and \<^verbatim>\<open>printf\<close> is recorded, in
  order, in the trace of the world. Whether a call of \<^verbatim>\<open>malloc\<close> returns a block or
  \<^verbatim>\<open>NULL\<close> is decided by the environment: \<open>malloc_ok w k\<close> tells whether the call
  number \<open>k\<close> succeeds.
\<close>

datatype event =
    Malloc_sllist bool
  | Malloc_node bool
  | Malloc_data nat bool
  | Memcpy nat
  | Free_data
  | Free_node
  | Free_sllist
  | Printf string
  | Visited bytes  \<comment> \<open>made by no operation: the record an example visitor leaves\<close>

record world =
  malloc_ok :: "nat \<Rightarrow> bool"
  malloc_calls :: nat
  trace :: "event list"

definition emit :: "event \<Rightarrow> world \<Rightarrow> world" where
  "emit e w = w\<lparr>trace := trace w @ [e]\<rparr>"

definition malloc :: "(bool \<Rightarrow> event) \<Rightarrow> world \<Rightarrow> bool \<times> world" where
  "malloc what w =
     (let ok = malloc_ok w (malloc_calls w)
      in (ok, emit (what ok) (w\<lparr>malloc_calls := Suc (malloc_calls w)\<rparr>)))"

definition free :: "event \<Rightarrow> world \<Rightarrow> world" where
  "free what w = emit what w"

text \<open>
  \<^verbatim>\<open>memcpy(dst, src, n)\<close> copies the first \<open>n\<close> bytes found at \<open>src\<close>. C requires the
  caller's object to hold at least \<open>n\<close> bytes.
\<close>

definition memcpy :: "nat \<Rightarrow> bytes \<Rightarrow> world \<Rightarrow> bytes \<times> world" where
  "memcpy n src w = (take n src, emit (Memcpy n) w)"

definition printf :: "string \<Rightarrow> world \<Rightarrow> world" where
  "printf s w = emit (Printf s) w"

section \<open>The operations (linkedlist.c)\<close>

definition sllist_create :: "nat \<Rightarrow> world \<Rightarrow> sllist option \<times> world" where
  "sllist_create sz w =
     (let (list, w1) = malloc Malloc_sllist w in
      if \<not> list then (None, w1)
      else (Some \<lparr>head = NULL, data_size = sz\<rparr>, w1))"

definition insert_front :: "sllist option \<Rightarrow> bytes option \<Rightarrow> world \<Rightarrow> sllist option \<times> world" where
  "insert_front list data w =
     (case (list, data) of
        (Some l, Some src) \<Rightarrow>
          (let (new_node, w1) = malloc Malloc_node w in
           if \<not> new_node then (list, w1)
           else let (new_data, w2) = malloc (Malloc_data (data_size l)) w1 in
           if \<not> new_data then (list, free Free_node w2)
           else let (payload, w3) = memcpy (data_size l) src w2 in
           (Some (l\<lparr>head := Node payload (head l)\<rparr>), w3))
      | _ \<Rightarrow> (list, w))"

text \<open>
  The walk of \<^verbatim>\<open>insert_end\<close> (lines 99 to 103): \<open>current\<close> points to the node with
  payload \<open>d\<close> and successor \<open>nx\<close>; the result is that node after the walk has linked
  \<open>new_node\<close> behind the last node.
\<close>

fun insert_end_walk :: "bytes \<Rightarrow> sll_node_ptr \<Rightarrow> sll_node_ptr \<Rightarrow> sll_node_ptr" where
  "insert_end_walk d NULL new_node = Node d new_node"
| "insert_end_walk d (Node d1 nx) new_node = Node d (insert_end_walk d1 nx new_node)"

definition insert_end :: "sllist option \<Rightarrow> bytes option \<Rightarrow> world \<Rightarrow> sllist option \<times> world" where
  "insert_end list data w =
     (case (list, data) of
        (Some l, Some src) \<Rightarrow>
          (let (new_node, w1) = malloc Malloc_node w in
           if \<not> new_node then (list, w1)
           else let (new_data, w2) = malloc (Malloc_data (data_size l)) w1 in
           if \<not> new_data then (list, free Free_node w2)
           else let (payload, w3) = memcpy (data_size l) src w2 in
           (case head l of
              NULL \<Rightarrow> (Some (l\<lparr>head := Node payload NULL\<rparr>), w3)
            | Node d nx \<Rightarrow> (Some (l\<lparr>head := insert_end_walk d nx (Node payload NULL)\<rparr>), w3)))
      | _ \<Rightarrow> (list, w))"

text \<open>
  The walk of \<^verbatim>\<open>insert_at_index\<close> (lines 149 to 166) with \<open>k\<close> iterations of the
  \<^verbatim>\<open>for\<close> loop left and \<open>current\<close> the second argument. The result is \<open>None\<close> when
  \<open>current\<close> is \<^verbatim>\<open>NULL\<close> in the loop or after it (index out of bounds), and otherwise
  the chain from \<open>current\<close> on, with the new node linked behind the node reached.
\<close>

fun insert_at_index_walk :: "nat \<Rightarrow> sll_node_ptr \<Rightarrow> bytes \<Rightarrow> sll_node_ptr option" where
  "insert_at_index_walk 0 NULL payload = None"
| "insert_at_index_walk 0 (Node d nx) payload = Some (Node d (Node payload nx))"
| "insert_at_index_walk (Suc k) NULL payload = None"
| "insert_at_index_walk (Suc k) (Node d nx) payload =
     map_option (Node d) (insert_at_index_walk k nx payload)"

definition insert_at_index ::
  "sllist option \<Rightarrow> bytes option \<Rightarrow> nat \<Rightarrow> world \<Rightarrow> sllist option \<times> world" where
  "insert_at_index list data index w =
     (case (list, data) of
        (Some l, Some src) \<Rightarrow>
          (let (new_node, w1) = malloc Malloc_node w in
           if \<not> new_node then (list, w1)
           else let (new_data, w2) = malloc (Malloc_data (data_size l)) w1 in
           if \<not> new_data then (list, free Free_node w2)
           else let (payload, w3) = memcpy (data_size l) src w2 in
           if index = 0 then (Some (l\<lparr>head := Node payload (head l)\<rparr>), w3)
           else (case insert_at_index_walk (index - 1) (head l) payload of
                   None \<Rightarrow> (list, free Free_node (free Free_data w3))
                 | Some h \<Rightarrow> (Some (l\<lparr>head := h\<rparr>), w3)))
      | _ \<Rightarrow> (list, w))"

text \<open>
  \<^verbatim>\<open>free_sllist\<close> reads \<^verbatim>\<open>list->head\<close> without a check of \<^verbatim>\<open>list\<close>. The loop frees
  the payload and then the node of every node of the chain; the list object is freed
  last, so no list is left behind the pointer.
\<close>

fun free_sllist_loop :: "sll_node_ptr \<Rightarrow> world \<Rightarrow> world" where
  "free_sllist_loop NULL w = w"
| "free_sllist_loop (Node d nx) w = free_sllist_loop nx (free Free_node (free Free_data w))"

definition free_sllist :: "sllist option \<Rightarrow> world \<Rightarrow> fault + world" where
  "free_sllist list w =
     (case list of
        None \<Rightarrow> Inl Null_dereference
      | Some l \<Rightarrow> Inr (free Free_sllist (free_sllist_loop (head l) w)))"

definition free_at_front :: "sllist option \<Rightarrow> world \<Rightarrow> fault + sllist option \<times> world" where
  "free_at_front list w =
     (case list of
        None \<Rightarrow> Inl Null_dereference
      | Some l \<Rightarrow>
          (case head l of
             NULL \<Rightarrow> Inr (list, w)
           | Node d nx \<Rightarrow> Inr (Some (l\<lparr>head := nx\<rparr>), free Free_node (free Free_data w))))"

text \<open>
  The walk of \<^verbatim>\<open>free_at_end\<close> (lines 236 to 243): \<open>current\<close> points to the node with
  payload \<open>d\<close>, \<^verbatim>\<open>current->next\<close> to the node with payload \<open>d1\<close>, and the third
  argument is \<^verbatim>\<open>current->next->next\<close>. The result is the node at \<open>current\<close> after the
  last node of the chain has been cut off.
\<close>

fun free_at_end_walk :: "bytes \<Rightarrow> bytes \<Rightarrow> sll_node_ptr \<Rightarrow> sll_node_ptr" where
  "free_at_end_walk d d1 NULL = Node d NULL"
| "free_at_end_walk d d1 (Node d2 nx) = Node d (free_at_end_walk d1 d2 nx)"

definition free_at_end :: "sllist option \<Rightarrow> world \<Rightarrow> fault + sllist option \<times> world" where
  "free_at_end list w =
     (case list of
        None \<Rightarrow> Inl Null_dereference
      | Some l \<Rightarrow>
          (case head l of
             NULL \<Rightarrow> Inr (list, w)
           | Node d NULL \<Rightarrow> Inr (Some (l\<lparr>head := NULL\<rparr>), free Free_node (free Free_data w))
           | Node d (Node d1 nx) \<Rightarrow>
               Inr (Some (l\<lparr>head := free_at_end_walk d d1 nx\<rparr>),
                    free Free_node (free Free_data w))))"

text \<open>
  The walk of \<^verbatim>\<open>free_at_index\<close> (lines 270 to 283) with \<open>k\<close> iterations of the
  \<^verbatim>\<open>for\<close> loop left; \<open>current\<close> points to the node with payload \<open>d\<close> whose
  \<^verbatim>\<open>next\<close> is the third argument. The result is \<open>None\<close> when \<^verbatim>\<open>current->next\<close> is
  \<^verbatim>\<open>NULL\<close> in the loop or after it (index out of bounds), and otherwise the node at
  \<open>current\<close> after the node behind the one reached has been unlinked.
\<close>

fun free_at_index_walk :: "nat \<Rightarrow> bytes \<Rightarrow> sll_node_ptr \<Rightarrow> sll_node_ptr option" where
  "free_at_index_walk 0 d NULL = None"
| "free_at_index_walk 0 d (Node d1 nx) = Some (Node d nx)"
| "free_at_index_walk (Suc k) d NULL = None"
| "free_at_index_walk (Suc k) d (Node d1 nx) =
     map_option (Node d) (free_at_index_walk k d1 nx)"

definition free_at_index ::
  "sllist option \<Rightarrow> nat \<Rightarrow> world \<Rightarrow> fault + sllist option \<times> world" where
  "free_at_index list index w =
     (case list of
        None \<Rightarrow> Inl Null_dereference
      | Some l \<Rightarrow>
          (case head l of
             NULL \<Rightarrow> Inr (list, w)
           | Node d nx \<Rightarrow>
               if index = 0 then free_at_front list w
               else (case free_at_index_walk (index - 1) d nx of
                       None \<Rightarrow> Inr (list, w)
                     | Some h \<Rightarrow>
                         Inr (Some (l\<lparr>head := h\<rparr>), free Free_node (free Free_data w)))))"

fun sll_len_loop :: "sll_node_ptr \<Rightarrow> nat \<Rightarrow> nat" where
  "sll_len_loop NULL len = len"
| "sll_len_loop (Node d nx) len = sll_len_loop nx (len + 1)"

definition sll_len :: "sllist option \<Rightarrow> fault + nat" where
  "sll_len list =
     (case list of
        None \<Rightarrow> Inl Null_dereference
      | Some l \<Rightarrow> Inr (sll_len_loop (head l) 0))"

text \<open>
  The visitor \<^verbatim>\<open>print_func\<close> is code of the caller: any function that, given the
  payload of a node, acts on the world. It gets no access to the nodes or to the list
  object, and the payload is handed to it for reading.
\<close>

type_synonym visitor = "bytes \<Rightarrow> world \<Rightarrow> world"

fun print_sllist_loop :: "visitor \<Rightarrow> sll_node_ptr \<Rightarrow> world \<Rightarrow> world" where
  "print_sllist_loop print_func NULL w = w"
| "print_sllist_loop print_func (Node d nx) w = print_sllist_loop print_func nx (print_func d w)"

definition print_sllist ::
  "sllist option \<Rightarrow> visitor \<Rightarrow> world \<Rightarrow> fault + sllist option \<times> world" where
  "print_sllist list print_func w =
     (case list of
        None \<Rightarrow> Inl Null_dereference
      | Some l \<Rightarrow>
          Inr (list, printf ''NULL\<newline>'' (print_sllist_loop print_func (head l) w)))"

section \<open>Sequences of calls\<close>

text \<open>
  A program that holds one list pointer calls the operations one after the other; a
  fault ends the run.
\<close>

datatype call =
    Insert_front "bytes option"
  | Insert_end "bytes option"
  | Insert_at_index "bytes option" nat
  | Free_at_front
  | Free_at_end
  | Free_at_index nat
  | Sll_len
  | Print_sllist visitor

type_synonym state = "sllist option \<times> world"

fun exec :: "call \<Rightarrow> state \<Rightarrow> fault + state" where
  "exec (Insert_front data) (list, w) = Inr (insert_front list data w)"
| "exec (Insert_end data) (list, w) = Inr (insert_end list data w)"
| "exec (Insert_at_index data index) (list, w) = Inr (insert_at_index list data index w)"
| "exec Free_at_front (list, w) = free_at_front list w"
| "exec Free_at_end (list, w) = free_at_end list w"
| "exec (Free_at_index index) (list, w) = free_at_index list index w"
| "exec Sll_len (list, w) = (case sll_len list of Inl f \<Rightarrow> Inl f | Inr n \<Rightarrow> Inr (list, w))"
| "exec (Print_sllist print_func) (list, w) = print_sllist list print_func w"

fun run :: "call list \<Rightarrow> state \<Rightarrow> fault + state" where
  "run [] s = Inr s"
| "run (c # cs) s = (case exec c s of Inl f \<Rightarrow> Inl f | Inr s1 \<Rightarrow> run cs s1)"

section \<open>Abstraction: the element sequence of a chain\<close>

fun elements :: "sll_node_ptr \<Rightarrow> bytes list" where
  "elements NULL = []"
| "elements (Node d nx) = d # elements nx"

section \<open>Measuring a run\<close>

text \<open>
  The number of nodes of a list, as the abstraction sees it.
\<close>

definition len :: "sllist \<Rightarrow> nat" where
  "len l = length (elements (head l))"

fun is_insert :: "call \<Rightarrow> bool" where
  "is_insert (Insert_front data) = True"
| "is_insert (Insert_end data) = True"
| "is_insert (Insert_at_index data index) = True"
| "is_insert c = False"

fun is_remove :: "call \<Rightarrow> bool" where
  "is_remove Free_at_front = True"
| "is_remove Free_at_end = True"
| "is_remove (Free_at_index index) = True"
| "is_remove c = False"

text \<open>
  The operations return nothing, so a call of an insert or remove operation counts as
  succeeded when the list after it is not the list before it. \<open>succeeded kind cs s\<close>
  counts the calls of the given kind that succeed while \<open>cs\<close> runs from \<open>s\<close>.
\<close>

fun succeeded :: "(call \<Rightarrow> bool) \<Rightarrow> call list \<Rightarrow> state \<Rightarrow> nat" where
  "succeeded kind [] s = 0"
| "succeeded kind (c # cs) s =
     (case exec c s of
        Inl f \<Rightarrow> 0
      | Inr s1 \<Rightarrow> (if kind c \<and> fst s1 \<noteq> fst s then 1 else 0) + succeeded kind cs s1)"

text \<open>
  What an insert operation must leave behind when one of its two allocations fails: the
  list it was given, and a trace extended by the failed call alone or, when the node
  was allocated and the payload was not, by the two calls and the release of the node.
\<close>

definition alloc_failure_outcome :: "sllist \<Rightarrow> world \<Rightarrow> sllist option \<times> world \<Rightarrow> bool" where
  "alloc_failure_outcome l w r =
     (fst r = Some l \<and>
      trace (snd r) = trace w @
        (if malloc_ok w (malloc_calls w)
         then [Malloc_node True, Malloc_data (data_size l) False, Free_node]
         else [Malloc_node False]))"

text \<open>
  The sizes passed to the payload's \<^verbatim>\<open>malloc\<close> and to \<^verbatim>\<open>memcpy\<close> in a piece of trace;
  \<open>copies_with n w w1\<close> says that \<open>w1\<close> extends the trace of \<open>w\<close> and that every such
  size in the extension is \<open>n\<close>.
\<close>

fun payload_sizes :: "event list \<Rightarrow> nat list" where
  "payload_sizes [] = []"
| "payload_sizes (Malloc_data n ok # es) = n # payload_sizes es"
| "payload_sizes (Memcpy n # es) = n # payload_sizes es"
| "payload_sizes (e # es) = payload_sizes es"

definition copies_with :: "nat \<Rightarrow> world \<Rightarrow> world \<Rightarrow> bool" where
  "copies_with n w w1 =
     (\<exists>es. trace w1 = trace w @ es \<and> set (payload_sizes es) \<subseteq> {n})"

section \<open>Example inputs\<close>

definition example_world :: world where
  "example_world = \<lparr>malloc_ok = (\<lambda>k. True), malloc_calls = 0, trace = []\<rparr>"

text \<open>A world in which the second call of \<^verbatim>\<open>malloc\<close> returns \<^verbatim>\<open>NULL\<close>.\<close>

definition failing_world :: world where
  "failing_world = \<lparr>malloc_ok = (\<lambda>k. k \<noteq> 1), malloc_calls = 0, trace = []\<rparr>"

definition example_list :: sllist where
  "example_list = \<lparr>head = Node [1, 0] (Node [2, 0] (Node [3, 0] NULL)), data_size = 2\<rparr>"

definition example_calls :: "call list" where
  "example_calls =
     [Free_at_front, Insert_end (Some [1, 0]), Insert_at_index (Some [2, 0]) 5,
      Insert_front (Some [3, 0]), Insert_end None, Insert_end (Some [5, 0]),
      Free_at_index 1, Free_at_index 1, Insert_at_index (Some [4, 0]) 1, Sll_len,
      Free_at_end]"

text \<open>What \<^verbatim>\<open>sllist_create(2)\<close> returns in the failing world.\<close>

definition created_state :: state where
  "created_state =
     (Some \<lparr>head = NULL, data_size = 2\<rparr>,
      failing_world\<lparr>malloc_calls := 1, trace := [Malloc_sllist True]\<rparr>)"

section \<open>Lemmas about the walks\<close>

lemma sll_len_loop_elements: "sll_len_loop p n = n + length (elements p)"
  by (induction p arbitrary: n) simp_all

lemma sll_len_len: "sll_len (Some l) = Inr (len l)"
  by (simp add: sll_len_def sll_len_loop_elements len_def)

lemma elements_insert_end_walk:
  "elements (insert_end_walk d nx new_node) = d # elements nx @ elements new_node"
  by (induction nx arbitrary: d) simp_all

lemma insert_at_index_walk_NULL: "insert_at_index_walk k NULL payload = None"
  by (cases k) simp_all

lemma insert_at_index_walk_end:
  "insert_at_index_walk (length (elements nx)) (Node d nx) payload =
     Some (insert_end_walk d nx (Node payload NULL))"
  by (induction nx arbitrary: d) simp_all

lemma length_insert_at_index_walk:
  "insert_at_index_walk k p payload = Some h \<Longrightarrow>
   length (elements h) = Suc (length (elements p))"
proof (induction k arbitrary: p h)
  case 0
  then show ?case by (cases p) auto
next
  case (Suc k)
  then show ?case by (cases p) auto
qed

lemma length_free_at_index_walk:
  "free_at_index_walk k d nx = Some h \<Longrightarrow> length (elements h) = length (elements nx)"
proof (induction k arbitrary: d nx h)
  case 0
  then show ?case by (cases nx) auto
next
  case (Suc k)
  then show ?case by (cases nx) auto
qed

lemma length_free_at_end_walk:
  "length (elements (free_at_end_walk d d1 nx)) = Suc (length (elements nx))"
  by (induction nx arbitrary: d d1) simp_all

text \<open>
  Unlinking behind the node that the insertion walk reached gives back the chain the
  walk started from.
\<close>

lemma insert_then_free_walk:
  "insert_at_index_walk k (Node d nx) payload = Some h \<Longrightarrow>
   \<exists>nx1. h = Node d nx1 \<and> free_at_index_walk k d nx1 = Some (Node d nx)"
proof (induction k arbitrary: d nx h)
  case 0
  then show ?case by auto
next
  case (Suc k)
  show ?case
  proof (cases nx)
    case NULL
    with Suc.prems show ?thesis by (simp add: insert_at_index_walk_NULL)
  next
    case (Node d1 nx1)
    with Suc.prems obtain h1 where h1: "insert_at_index_walk k (Node d1 nx1) payload = Some h1"
      and h: "h = Node d h1" by auto
    from Suc.IH [OF h1] obtain nx2 where "h1 = Node d1 nx2"
      and "free_at_index_walk k d1 nx2 = Some (Node d1 nx1)" by blast
    with h Node show ?thesis by simp
  qed
qed

lemma insert_walk_None_free_walk_None:
  "insert_at_index_walk k (Node d nx) payload = None \<Longrightarrow> free_at_index_walk k d nx = None"
proof (induction k arbitrary: d nx)
  case 0
  then show ?case by simp
next
  case (Suc k)
  then show ?case by (cases nx) (auto simp: insert_at_index_walk_NULL)
qed

lemma free_at_index_walk_out_of_bounds:
  "length (elements nx) \<le> k \<Longrightarrow> free_at_index_walk k d nx = None"
proof (induction k arbitrary: d nx)
  case 0
  then show ?case by (cases nx) simp_all
next
  case (Suc k)
  then show ?case by (cases nx) simp_all
qed

lemma print_sllist_loop_fold:
  "print_sllist_loop print_func p w = fold print_func (elements p) w"
  by (induction p arbitrary: w) simp_all

section \<open>Null arguments\<close>

text \<open>
  The three insert operations return at once, with the list and the world as they were,
  when the list pointer or the value pointer is \<^verbatim>\<open>NULL\<close>.
\<close>

lemma insert_null_arguments_ignored:
  "insert_front None data w = (None, w) \<and> insert_front list None w = (list, w) \<and>
   insert_end None data w = (None, w) \<and> insert_end list None w = (list, w) \<and>
   insert_at_index None data index w = (None, w) \<and>
   insert_at_index list None index w = (list, w)"
  by (simp add: insert_front_def insert_end_def insert_at_index_def split: option.splits)

text \<open>
  Claim C1 says that every operation ignores a \<^verbatim>\<open>NULL\<close> list pointer. The remove
  operations, \<^verbatim>\<open>free_sllist\<close>, \<^verbatim>\<open>sll_len\<close> and \<^verbatim>\<open>print_sllist\<close> have no such check:
  their first statement reads \<^verbatim>\<open>list->head\<close>, so with a \<^verbatim>\<open>NULL\<close> list pointer each of
  them dereferences \<^verbatim>\<open>NULL\<close> instead of returning.
\<close>

theorem null_list_is_dereferenced:
  "free_at_front None w = Inl Null_dereference \<and>
   free_at_end None w = Inl Null_dereference \<and>
   free_at_index None index w = Inl Null_dereference \<and>
   free_sllist None w = Inl Null_dereference \<and>
   sll_len None = Inl Null_dereference \<and>
   print_sllist None print_func w = Inl Null_dereference"
  by (simp add: free_at_front_def free_at_end_def free_at_index_def free_sllist_def sll_len_def
      print_sllist_def)

section \<open>Insertion at the two boundaries\<close>

text \<open>
  Claim C2. For every list, value pointer and world, \<^verbatim>\<open>sll_len\<close> returns a length
  \<open>n\<close>, and \<^verbatim>\<open>insert_at_index\<close> with index \<open>n\<close> returns what \<^verbatim>\<open>insert_end\<close> returns
  (the same list and the same library calls). The index \<open>n\<close> is in bounds: when both
  allocations succeed the element sequence afterwards is the prior one followed by the
  new element.
\<close>

theorem insert_at_index_len_is_insert_end:
  "\<exists>n. sll_len (Some l) = Inr n \<and>
     insert_at_index (Some l) data n w = insert_end (Some l) data w \<and>
     (malloc_ok w (malloc_calls w) \<and> malloc_ok w (Suc (malloc_calls w)) \<longrightarrow>
      (\<exists>l1 w1. insert_at_index (Some l) (Some src) n w = (Some l1, w1) \<and>
         elements (head l1) = elements (head l) @ [take (data_size l) src]))"
proof (cases "head l")
  case NULL
  then show ?thesis
    by (simp add: sll_len_def insert_at_index_def insert_end_def malloc_def memcpy_def emit_def
        Let_def split: option.splits prod.splits)
next
  case (Node d nx)
  then show ?thesis
    by (simp add: sll_len_def insert_at_index_def insert_end_def malloc_def memcpy_def emit_def
        Let_def sll_len_loop_elements insert_at_index_walk_end elements_insert_end_walk
        split: option.splits prod.splits)
qed

theorem insert_at_index_len_is_insert_end_witness:
  "sll_len (Some example_list) = Inr 3 \<and>
   insert_at_index (Some example_list) (Some [7, 8, 9]) 3 example_world =
     insert_end (Some example_list) (Some [7, 8, 9]) example_world \<and>
   fst (insert_at_index (Some example_list) (Some [7, 8, 9]) 3 example_world) =
     Some \<lparr>head = Node [1, 0] (Node [2, 0] (Node [3, 0] (Node [7, 8] NULL))), data_size = 2\<rparr>"
proof -
  have len: "sll_len (Some example_list) = Inr 3"
    by (simp add: sll_len_def example_list_def)
  have ok: "malloc_ok example_world (malloc_calls example_world) \<and>
    malloc_ok example_world (Suc (malloc_calls example_world))"
    by (simp add: example_world_def)
  from insert_at_index_len_is_insert_end [of example_list "Some [7, 8, 9]" example_world "[7, 8, 9]"]
    len ok
  have eq: "insert_at_index (Some example_list) (Some [7, 8, 9]) 3 example_world =
     insert_end (Some example_list) (Some [7, 8, 9]) example_world"
    by auto
  have "fst (insert_end (Some example_list) (Some [7, 8, 9]) example_world) =
     Some \<lparr>head = Node [1, 0] (Node [2, 0] (Node [3, 0] (Node [7, 8] NULL))), data_size = 2\<rparr>"
    by (simp add: insert_end_def malloc_def memcpy_def emit_def Let_def example_list_def
        example_world_def)
  with eq len show ?thesis by simp
qed

text \<open>
  Claim C3. For every list pointer, value pointer and world, \<^verbatim>\<open>insert_at_index\<close> with
  index 0 returns what \<^verbatim>\<open>insert_front\<close> returns (the same list and the same library
  calls); and when both allocations succeed the new element, the first
  \<^verbatim>\<open>data_size\<close> bytes of the value, is the head and the prior chain is its successor.
\<close>

theorem insert_at_index_zero_is_insert_front:
  "insert_at_index list data 0 w = insert_front list data w \<and>
   (malloc_ok w (malloc_calls w) \<and> malloc_ok w (Suc (malloc_calls w)) \<longrightarrow>
    fst (insert_at_index (Some l) (Some src) 0 w) =
      Some (l\<lparr>head := Node (take (data_size l) src) (head l)\<rparr>))"
  by (simp add: insert_at_index_def insert_front_def malloc_def memcpy_def emit_def Let_def
      split: option.splits prod.splits)

theorem insert_at_index_zero_is_insert_front_witness:
  "insert_at_index (Some example_list) (Some [7, 8, 9]) 0 example_world =
     insert_front (Some example_list) (Some [7, 8, 9]) example_world \<and>
   fst (insert_at_index (Some example_list) (Some [7, 8, 9]) 0 example_world) =
     Some \<lparr>head = Node [7, 8] (Node [1, 0] (Node [2, 0] (Node [3, 0] NULL))), data_size = 2\<rparr>"
proof -
  note inst = insert_at_index_zero_is_insert_front
    [of "Some example_list" "Some [7, 8, 9]" example_world example_list "[7, 8, 9]"]
  have ok: "malloc_ok example_world (malloc_calls example_world) \<and>
    malloc_ok example_world (Suc (malloc_calls example_world))"
    by (simp add: example_world_def)
  from inst ok have "fst (insert_at_index (Some example_list) (Some [7, 8, 9]) 0 example_world) =
    Some (example_list\<lparr>head := Node (take (data_size example_list) [7, 8, 9]) (head example_list)\<rparr>)"
    by blast
  then have "fst (insert_at_index (Some example_list) (Some [7, 8, 9]) 0 example_world) =
     Some \<lparr>head = Node [7, 8] (Node [1, 0] (Node [2, 0] (Node [3, 0] NULL))), data_size = 2\<rparr>"
    by (simp add: example_list_def)
  with inst show ?thesis by blast
qed

section \<open>Removal\<close>

text \<open>
  Claim C7. For every list and every index that is at least the length \<^verbatim>\<open>sll_len\<close>
  returns, \<^verbatim>\<open>free_at_index\<close> returns with the list as it was (so its length and the
  order of its elements are unchanged) and without a call of \<^verbatim>\<open>free\<close>.
\<close>

theorem free_at_index_out_of_bounds:
  "sll_len (Some l) = Inr n \<Longrightarrow> n \<le> i \<Longrightarrow> free_at_index (Some l) i w = Inr (Some l, w)"
proof (cases "head l")
  case NULL
  then show ?thesis by (simp add: free_at_index_def)
next
  case (Node d nx)
  assume "sll_len (Some l) = Inr n" "n \<le> i"
  with Node have "i \<noteq> 0" and "length (elements nx) \<le> i - 1"
    by (auto simp: sll_len_def sll_len_loop_elements)
  with Node show ?thesis
    by (simp add: free_at_index_def free_at_index_walk_out_of_bounds)
qed

theorem free_at_index_out_of_bounds_witness:
  "sll_len (Some example_list) = Inr 3 \<and> (3::nat) \<le> 3 \<and>
   free_at_index (Some example_list) 3 example_world = Inr (Some example_list, example_world)"
proof -
  have len: "sll_len (Some example_list) = Inr 3"
    by (simp add: sll_len_def example_list_def)
  have bound: "(3::nat) \<le> 3" by simp
  from free_at_index_out_of_bounds [OF len bound, of example_world] len show ?thesis by simp
qed

text \<open>
  Claim C4. For every list, value, index and world in which the two allocations of the
  insertion succeed, \<^verbatim>\<open>insert_at_index\<close> at the index followed by \<^verbatim>\<open>free_at_index\<close> at
  the same index returns the list it started from: the same elements in the same order.
  This covers an index beyond the length, where neither call changes the list.
\<close>

theorem insert_then_free_roundtrip:
  assumes "malloc_ok w (malloc_calls w)" and "malloc_ok w (Suc (malloc_calls w))"
  shows "\<exists>l1 w1 w2. insert_at_index (Some l) (Some v) i w = (l1, w1) \<and>
           free_at_index l1 i w1 = Inr (Some l, w2)"
proof (cases "i = 0")
  case True
  with assms show ?thesis
    by (simp add: insert_at_index_def malloc_def memcpy_def emit_def Let_def
        free_at_index_def free_at_front_def)
next
  case False
  show ?thesis
  proof (cases "head l")
    case NULL
    with False assms show ?thesis
      by (simp add: insert_at_index_def malloc_def memcpy_def emit_def Let_def
          free_at_index_def free_def insert_at_index_walk_NULL)
  next
    case (Node d nx)
    show ?thesis
    proof (cases "insert_at_index_walk (i - 1) (Node d nx) (take (data_size l) v)")
      case None
      from insert_walk_None_free_walk_None [OF None] None Node False assms show ?thesis
        by (simp add: insert_at_index_def malloc_def memcpy_def emit_def Let_def
            free_at_index_def)
    next
      case (Some h)
      from insert_then_free_walk [OF Some] obtain nx1 where "h = Node d nx1"
        and "free_at_index_walk (i - 1) d nx1 = Some (Node d nx)" by blast
      with Some Node False assms show ?thesis
        by (simp add: insert_at_index_def malloc_def memcpy_def emit_def Let_def
            free_at_index_def)
    qed
  qed
qed

theorem insert_then_free_roundtrip_witness:
  "malloc_ok example_world (malloc_calls example_world) \<and>
   malloc_ok example_world (Suc (malloc_calls example_world)) \<and>
   fst (insert_at_index (Some example_list) (Some [7, 8]) 2 example_world) =
     Some \<lparr>head = Node [1, 0] (Node [2, 0] (Node [7, 8] (Node [3, 0] NULL))), data_size = 2\<rparr> \<and>
   (\<exists>l1 w1 w2. insert_at_index (Some example_list) (Some [7, 8]) 2 example_world = (l1, w1) \<and>
      free_at_index l1 2 w1 = Inr (Some example_list, w2))"
proof -
  have ok1: "malloc_ok example_world (malloc_calls example_world)"
    and ok2: "malloc_ok example_world (Suc (malloc_calls example_world))"
    by (simp_all add: example_world_def)
  have "fst (insert_at_index (Some example_list) (Some [7, 8]) 2 example_world) =
     Some \<lparr>head = Node [1, 0] (Node [2, 0] (Node [7, 8] (Node [3, 0] NULL))), data_size = 2\<rparr>"
    by (simp add: insert_at_index_def malloc_def memcpy_def emit_def Let_def example_list_def
        example_world_def numeral_2_eq_2)
  with insert_then_free_roundtrip [OF ok1 ok2, of example_list "[7, 8]" 2] ok1 ok2
  show ?thesis by blast
qed

section \<open>The length after a run\<close>

lemma insert_front_len:
  "\<exists>l1 w1. insert_front (Some l) data w = (Some l1, w1) \<and> (l1 = l \<or> len l1 = Suc (len l))"
  by (simp add: insert_front_def len_def memcpy_def Let_def split: option.splits prod.splits)

lemma insert_end_len:
  "\<exists>l1 w1. insert_end (Some l) data w = (Some l1, w1) \<and> (l1 = l \<or> len l1 = Suc (len l))"
  by (simp add: insert_end_def len_def memcpy_def Let_def elements_insert_end_walk
      split: option.splits prod.splits sll_node_ptr.splits)

lemma insert_at_index_len:
  "\<exists>l1 w1. insert_at_index (Some l) data index w = (Some l1, w1) \<and>
     (l1 = l \<or> len l1 = Suc (len l))"
  by (auto simp: insert_at_index_def len_def memcpy_def Let_def
      dest: length_insert_at_index_walk
      split: option.splits prod.splits)

lemma free_at_front_len:
  "\<exists>l1 w1. free_at_front (Some l) w = Inr (Some l1, w1) \<and> (l1 = l \<or> Suc (len l1) = len l)"
  by (simp add: free_at_front_def len_def split: sll_node_ptr.splits)

lemma free_at_end_len:
  "\<exists>l1 w1. free_at_end (Some l) w = Inr (Some l1, w1) \<and> (l1 = l \<or> Suc (len l1) = len l)"
  by (simp add: free_at_end_def len_def length_free_at_end_walk split: sll_node_ptr.splits)

lemma free_at_index_len:
  "\<exists>l1 w1. free_at_index (Some l) index w = Inr (Some l1, w1) \<and>
     (l1 = l \<or> Suc (len l1) = len l)"
  by (auto simp: free_at_index_def free_at_front_def len_def
      dest: length_free_at_index_walk
      split: sll_node_ptr.splits option.splits)

text \<open>
  A call on a list never faults, and it leaves the list as it was, or it is an insert
  and the list has one node more, or it is a remove and the list has one node less.
\<close>

lemma exec_len:
  "\<exists>l1 w1. exec c (Some l, w) = Inr (Some l1, w1) \<and>
     (l1 = l \<or> is_insert c \<and> len l1 = Suc (len l) \<or> is_remove c \<and> Suc (len l1) = len l)"
proof (cases c)
  case (Insert_front data)
  with insert_front_len [of l data w] show ?thesis by auto
next
  case (Insert_end data)
  with insert_end_len [of l data w] show ?thesis by auto
next
  case (Insert_at_index data index)
  with insert_at_index_len [of l data index w] show ?thesis by auto
next
  case Free_at_front
  with free_at_front_len [of l w] show ?thesis by auto
next
  case Free_at_end
  with free_at_end_len [of l w] show ?thesis by auto
next
  case (Free_at_index index)
  with free_at_index_len [of l index w] show ?thesis by auto
next
  case Sll_len
  then show ?thesis by (simp add: sll_len_def)
next
  case (Print_sllist print_func)
  then show ?thesis by (simp add: print_sllist_def)
qed

lemma is_insert_not_remove: "is_insert c \<Longrightarrow> \<not> is_remove c"
  by (cases c) simp_all

lemma run_len:
  "\<exists>l1 w1. run cs (Some l, w) = Inr (Some l1, w1) \<and>
     len l1 + succeeded is_remove cs (Some l, w) = len l + succeeded is_insert cs (Some l, w)"
proof (induction cs arbitrary: l w)
  case Nil
  show ?case by simp
next
  case (Cons c cs)
  from exec_len [of c l w] obtain l1 w1 where step: "exec c (Some l, w) = Inr (Some l1, w1)"
    and change: "l1 = l \<or> is_insert c \<and> len l1 = Suc (len l) \<or>
                 is_remove c \<and> Suc (len l1) = len l"
    by blast
  from Cons.IH [of l1 w1] obtain l2 w2 where rest: "run cs (Some l1, w1) = Inr (Some l2, w2)"
    and count: "len l2 + succeeded is_remove cs (Some l1, w1) =
                len l1 + succeeded is_insert cs (Some l1, w1)"
    by blast
  from change consider "l1 = l" | "is_insert c" "len l1 = Suc (len l)"
    | "is_remove c" "Suc (len l1) = len l" by blast
  then have "len l2 + succeeded is_remove (c # cs) (Some l, w) =
             len l + succeeded is_insert (c # cs) (Some l, w)"
  proof cases
    case 1
    with step count show ?thesis by simp
  next
    case 2
    then have "l1 \<noteq> l" by auto
    with 2 step count is_insert_not_remove [of c] show ?thesis by simp
  next
    case 3
    then have "l1 \<noteq> l" by auto
    with 3 step count is_insert_not_remove [of c] show ?thesis by auto
  qed
  with step rest show ?case by simp
qed

section \<open>When a call changes the list\<close>

text \<open>
  A call changes the list exactly when it reaches the statements that link or unlink a
  node: an insert when the value pointer is not \<^verbatim>\<open>NULL\<close>, both allocations succeed
  and (for \<^verbatim>\<open>insert_at_index\<close>) the index is at most the length; a remove when the
  list is not empty and (for \<^verbatim>\<open>free_at_index\<close>) the index is below the length.
\<close>

lemma insert_at_index_walk_None_iff:
  "insert_at_index_walk k p payload = None \<longleftrightarrow> length (elements p) \<le> k"
proof (induction k arbitrary: p)
  case 0
  show ?case by (cases p) simp_all
next
  case (Suc k)
  then show ?case by (cases p) simp_all
qed

lemma free_at_index_walk_None_iff:
  "free_at_index_walk k d nx = None \<longleftrightarrow> length (elements nx) \<le> k"
proof (induction k arbitrary: d nx)
  case 0
  show ?case by (cases nx) simp_all
next
  case (Suc k)
  then show ?case by (cases nx) simp_all
qed

lemma len_neq: "len l1 \<noteq> len l \<Longrightarrow> l1 \<noteq> l"
  by auto

lemma insert_front_changes_iff:
  "fst (insert_front (Some l) data w) \<noteq> Some l \<longleftrightarrow>
   data \<noteq> None \<and> malloc_ok w (malloc_calls w) \<and> malloc_ok w (Suc (malloc_calls w))"
proof (cases data)
  case None
  then show ?thesis by (simp add: insert_front_def)
next
  case (Some src)
  have "l\<lparr>head := Node (take (data_size l) src) (head l)\<rparr> \<noteq> l"
    by (rule len_neq) (simp add: len_def)
  with Some show ?thesis
    by (simp add: insert_front_def malloc_def memcpy_def emit_def Let_def)
qed

lemma insert_end_changes_iff:
  "fst (insert_end (Some l) data w) \<noteq> Some l \<longleftrightarrow>
   data \<noteq> None \<and> malloc_ok w (malloc_calls w) \<and> malloc_ok w (Suc (malloc_calls w))"
proof (cases data)
  case None
  then show ?thesis by (simp add: insert_end_def)
next
  case (Some src)
  show ?thesis
  proof (cases "head l")
    case NULL
    have "l\<lparr>head := Node (take (data_size l) src) NULL\<rparr> \<noteq> l"
      using NULL by (intro len_neq) (simp add: len_def)
    with Some NULL show ?thesis
      by (simp add: insert_end_def malloc_def memcpy_def emit_def Let_def)
  next
    case (Node d nx)
    have "l\<lparr>head := insert_end_walk d nx (Node (take (data_size l) src) NULL)\<rparr> \<noteq> l"
      using Node by (intro len_neq) (simp add: len_def elements_insert_end_walk)
    with Some Node show ?thesis
      by (simp add: insert_end_def malloc_def memcpy_def emit_def Let_def)
  qed
qed

lemma insert_at_index_changes_iff:
  "fst (insert_at_index (Some l) data index w) \<noteq> Some l \<longleftrightarrow>
   data \<noteq> None \<and> malloc_ok w (malloc_calls w) \<and> malloc_ok w (Suc (malloc_calls w)) \<and>
   index \<le> len l"
proof (cases data)
  case None
  then show ?thesis by (simp add: insert_at_index_def)
next
  case (Some src)
  show ?thesis
  proof (cases "index = 0")
    case True
    have "l\<lparr>head := Node (take (data_size l) src) (head l)\<rparr> \<noteq> l"
      by (rule len_neq) (simp add: len_def)
    with Some True show ?thesis
      by (simp add: insert_at_index_def malloc_def memcpy_def emit_def Let_def)
  next
    case False
    show ?thesis
    proof (cases "insert_at_index_walk (index - 1) (head l) (take (data_size l) src)")
      case None
      then have "\<not> index \<le> len l"
        using False by (simp add: insert_at_index_walk_None_iff len_def)
      with None Some False show ?thesis
        by (simp add: insert_at_index_def malloc_def memcpy_def emit_def Let_def)
    next
      case Some1: (Some h)
      then have "index \<le> len l"
        using insert_at_index_walk_None_iff [of "index - 1" "head l" "take (data_size l) src"]
        by (simp add: len_def)
      moreover from length_insert_at_index_walk [OF Some1] have "l\<lparr>head := h\<rparr> \<noteq> l"
        by (intro len_neq) (simp add: len_def)
      ultimately show ?thesis using Some Some1 False
        by (simp add: insert_at_index_def malloc_def memcpy_def emit_def Let_def)
    qed
  qed
qed

lemma free_at_index_changes_iff:
  "free_at_index (Some l) index w = Inr (Some l1, w1) \<Longrightarrow> l1 \<noteq> l \<longleftrightarrow> index < len l"
proof (cases "head l")
  case NULL
  assume "free_at_index (Some l) index w = Inr (Some l1, w1)"
  with NULL show ?thesis by (simp add: free_at_index_def len_def)
next
  case (Node d nx)
  assume r: "free_at_index (Some l) index w = Inr (Some l1, w1)"
  show ?thesis
  proof (cases "index = 0")
    case True
    with r Node have "l1 = l\<lparr>head := nx\<rparr>"
      by (auto simp: free_at_index_def free_at_front_def)
    moreover have "l\<lparr>head := nx\<rparr> \<noteq> l" using Node by (intro len_neq) (simp add: len_def)
    ultimately show ?thesis using True Node by (simp add: len_def)
  next
    case False
    show ?thesis
    proof (cases "free_at_index_walk (index - 1) d nx")
      case None
      with r Node False have "l1 = l" by (simp add: free_at_index_def)
      moreover from None have "\<not> index < len l"
        using False Node by (simp add: free_at_index_walk_None_iff len_def)
      ultimately show ?thesis by simp
    next
      case (Some h)
      with r Node False have "l1 = l\<lparr>head := h\<rparr>" by (auto simp: free_at_index_def)
      moreover from length_free_at_index_walk [OF Some] have "l\<lparr>head := h\<rparr> \<noteq> l"
        using Node by (intro len_neq) (simp add: len_def)
      moreover have "index < len l"
        using free_at_index_walk_None_iff [of "index - 1" d nx] Some False Node
        by (simp add: len_def)
      ultimately show ?thesis by simp
    qed
  qed
qed

lemma free_at_front_changes_iff:
  "free_at_front (Some l) w = Inr (Some l1, w1) \<Longrightarrow> l1 \<noteq> l \<longleftrightarrow> head l \<noteq> NULL"
proof (cases "head l")
  case NULL
  assume "free_at_front (Some l) w = Inr (Some l1, w1)"
  with NULL show ?thesis by (simp add: free_at_front_def)
next
  case (Node d nx)
  assume "free_at_front (Some l) w = Inr (Some l1, w1)"
  with Node have "l1 = l\<lparr>head := nx\<rparr>" by (auto simp: free_at_front_def)
  moreover have "l\<lparr>head := nx\<rparr> \<noteq> l" using Node by (intro len_neq) (simp add: len_def)
  ultimately show ?thesis using Node by simp
qed

lemma free_at_end_changes_iff:
  "free_at_end (Some l) w = Inr (Some l1, w1) \<Longrightarrow> l1 \<noteq> l \<longleftrightarrow> head l \<noteq> NULL"
proof (cases "head l = NULL")
  case True
  assume "free_at_end (Some l) w = Inr (Some l1, w1)"
  with True show ?thesis by (simp add: free_at_end_def)
next
  case False
  assume "free_at_end (Some l) w = Inr (Some l1, w1)"
  with False have "Suc (len l1) = len l"
    by (auto simp: free_at_end_def len_def length_free_at_end_walk split: sll_node_ptr.splits)
  then have "l1 \<noteq> l" by auto
  with False show ?thesis by simp
qed

text \<open>
  Claim C5. For every sequence of calls run on a list that \<^verbatim>\<open>sllist_create\<close> has just
  returned, the run does not fault and \<^verbatim>\<open>sll_len\<close> of the final list is the number of
  insert calls that succeeded minus the number of remove calls that succeeded. The
  sequence may also hold calls of \<^verbatim>\<open>sll_len\<close> and \<^verbatim>\<open>print_sllist\<close>, and any of the
  allocations may fail.
\<close>

theorem len_is_inserted_minus_removed:
  assumes "sllist_create sz w0 = (Some l, w)"
  shows "\<exists>l1 w1 n. run cs (Some l, w) = Inr (Some l1, w1) \<and> sll_len (Some l1) = Inr n \<and>
           int n = int (succeeded is_insert cs (Some l, w)) -
                   int (succeeded is_remove cs (Some l, w))"
proof -
  from assms have "len l = 0"
    by (auto simp: sllist_create_def malloc_def len_def Let_def split: if_splits)
  moreover from run_len [of cs l w] obtain l1 w1 where
    "run cs (Some l, w) = Inr (Some l1, w1)"
    "len l1 + succeeded is_remove cs (Some l, w) = len l + succeeded is_insert cs (Some l, w)"
    by blast
  moreover have "sll_len (Some l1) = Inr (len l1)"
    by (rule sll_len_len)
  ultimately show ?thesis by auto
qed

theorem len_is_inserted_minus_removed_witness:
  "sllist_create 2 failing_world = created_state \<and>
   succeeded is_insert example_calls created_state = 3 \<and>
   succeeded is_remove example_calls created_state = 2 \<and>
   (\<exists>l1 w1. run example_calls created_state = Inr (Some l1, w1) \<and> sll_len (Some l1) = Inr 1)"
proof -
  have created: "sllist_create 2 failing_world =
     (Some \<lparr>head = NULL, data_size = 2\<rparr>,
      failing_world\<lparr>malloc_calls := 1, trace := [Malloc_sllist True]\<rparr>)"
    by (simp add: sllist_create_def malloc_def emit_def failing_world_def)
  have inserted: "succeeded is_insert example_calls created_state = 3"
    by code_simp
  have removed: "succeeded is_remove example_calls created_state = 2"
    by code_simp
  from len_is_inserted_minus_removed [OF created, of example_calls] obtain l1 w1 n where
    "run example_calls created_state = Inr (Some l1, w1)" and "sll_len (Some l1) = Inr n" and
    "int n = int (succeeded is_insert example_calls created_state) -
             int (succeeded is_remove example_calls created_state)"
    by (auto simp: created_state_def)
  with inserted removed have "run example_calls created_state = Inr (Some l1, w1)"
    and "sll_len (Some l1) = Inr 1" by simp_all
  with created inserted removed show ?thesis by (auto simp: created_state_def)
qed

section \<open>Allocation failure\<close>

text \<open>
  Claim C6. When the allocation of the node or of its payload fails, each of
  \<^verbatim>\<open>insert_front\<close>, \<^verbatim>\<open>insert_end\<close> and \<^verbatim>\<open>insert_at_index\<close> returns the list it was
  given, with no node linked; and when the node was allocated and the payload was not,
  the calls it has made are the two of \<^verbatim>\<open>malloc\<close> and the \<^verbatim>\<open>free\<close> of the node.
\<close>

theorem allocation_failure_leaves_list:
  assumes "\<not> malloc_ok w (malloc_calls w) \<or> \<not> malloc_ok w (Suc (malloc_calls w))"
  shows "alloc_failure_outcome l w (insert_front (Some l) (Some src) w) \<and>
         alloc_failure_outcome l w (insert_end (Some l) (Some src) w) \<and>
         alloc_failure_outcome l w (insert_at_index (Some l) (Some src) index w)"
  using assms
  by (auto simp: alloc_failure_outcome_def insert_front_def insert_end_def insert_at_index_def
      malloc_def free_def emit_def Let_def)

theorem allocation_failure_leaves_list_witness:
  "malloc_ok failing_world (malloc_calls failing_world) \<and>
   \<not> malloc_ok failing_world (Suc (malloc_calls failing_world)) \<and>
   fst (insert_end (Some example_list) (Some [7, 8]) failing_world) = Some example_list \<and>
   trace (snd (insert_end (Some example_list) (Some [7, 8]) failing_world)) =
     [Malloc_node True, Malloc_data 2 False, Free_node]"
proof -
  have ok: "malloc_ok failing_world (malloc_calls failing_world)"
    and fails: "\<not> malloc_ok failing_world (Suc (malloc_calls failing_world))"
    by (simp_all add: failing_world_def)
  from fails have h: "\<not> malloc_ok failing_world (malloc_calls failing_world) \<or>
     \<not> malloc_ok failing_world (Suc (malloc_calls failing_world))"
    by simp
  from allocation_failure_leaves_list [OF h, of example_list "[7, 8]" 1]
  have "alloc_failure_outcome example_list failing_world
          (insert_end (Some example_list) (Some [7, 8]) failing_world)"
    by simp
  then have "fst (insert_end (Some example_list) (Some [7, 8]) failing_world) = Some example_list"
    and "trace (snd (insert_end (Some example_list) (Some [7, 8]) failing_world)) =
      [Malloc_node True, Malloc_data 2 False, Free_node]"
    by (simp_all add: alloc_failure_outcome_def failing_world_def example_list_def)
  with ok fails show ?thesis by blast
qed

section \<open>Traversal\<close>

text \<open>
  Claim C8. \<^verbatim>\<open>print_sllist\<close> applies the visitor to the elements of the list, each
  once and from the head to the tail, and returns the list as it was. When every
  allocation succeeds, \<^verbatim>\<open>insert_front(a)\<close>, \<^verbatim>\<open>insert_front(b)\<close>, \<^verbatim>\<open>insert_end(c)\<close> on
  the list that \<^verbatim>\<open>sllist_create\<close> returns, followed by the traversal with a visitor
  that records what it is given, record the elements \<open>b\<close>, \<open>a\<close>, \<open>c\<close> in this order.
\<close>

theorem print_sllist_visits_in_order:
  "print_sllist (Some l) print_func w =
     Inr (Some l, printf ''NULL\<newline>'' (fold print_func (elements (head l)) w)) \<and>
   ((\<forall>k. malloc_ok w k) \<longrightarrow>
    (\<exists>w1. run [Insert_front (Some a), Insert_front (Some b), Insert_end (Some c),
                Print_sllist (\<lambda>d. emit (Visited d))] (sllist_create sz w) =
             Inr (Some \<lparr>head = Node (take sz b) (Node (take sz a) (Node (take sz c) NULL)),
                         data_size = sz\<rparr>, w1) \<and>
           trace w1 = trace w @
             [Malloc_sllist True,
              Malloc_node True, Malloc_data sz True, Memcpy sz,
              Malloc_node True, Malloc_data sz True, Memcpy sz,
              Malloc_node True, Malloc_data sz True, Memcpy sz,
              Visited (take sz b), Visited (take sz a), Visited (take sz c),
              Printf ''NULL\<newline>'']))"
  by (simp add: print_sllist_def print_sllist_loop_fold sllist_create_def insert_front_def
      insert_end_def malloc_def memcpy_def emit_def printf_def Let_def)

theorem print_sllist_visits_in_order_witness:
  "(\<forall>k. malloc_ok example_world k) \<and>
   (\<exists>l1 w1. run [Insert_front (Some [65, 0]), Insert_front (Some [66, 0]),
                Insert_end (Some [67, 0]), Print_sllist (\<lambda>d. emit (Visited d))]
               (sllist_create 2 example_world) = Inr (l1, w1) \<and>
     trace w1 =
       [Malloc_sllist True,
        Malloc_node True, Malloc_data 2 True, Memcpy 2,
        Malloc_node True, Malloc_data 2 True, Memcpy 2,
        Malloc_node True, Malloc_data 2 True, Memcpy 2,
        Visited [66, 0], Visited [65, 0], Visited [67, 0], Printf ''NULL\<newline>''])"
proof -
  have ok: "\<forall>k. malloc_ok example_world k"
    by (simp add: example_world_def)
  have empty: "trace example_world = []"
    by (simp add: example_world_def)
  from print_sllist_visits_in_order
    [of example_list "\<lambda>d. emit (Visited d)" example_world "[65, 0]" "[66, 0]" "[67, 0]" 2] ok
  obtain w1 where
    "run [Insert_front (Some [65, 0]), Insert_front (Some [66, 0]),
          Insert_end (Some [67, 0]), Print_sllist (\<lambda>d. emit (Visited d))]
       (sllist_create 2 example_world) =
     Inr (Some \<lparr>head = Node (take 2 [66, 0]) (Node (take 2 [65, 0]) (Node (take 2 [67, 0]) NULL)),
                 data_size = 2\<rparr>, w1)"
    and "trace w1 = trace example_world @
       [Malloc_sllist True,
        Malloc_node True, Malloc_data 2 True, Memcpy 2,
        Malloc_node True, Malloc_data 2 True, Memcpy 2,
        Malloc_node True, Malloc_data 2 True, Memcpy 2,
        Visited (take 2 [66, 0]), Visited (take 2 [65, 0]), Visited (take 2 [67, 0]),
        Printf ''NULL\<newline>'']"
    by blast
  with ok empty show ?thesis by simp
qed

text \<open>
  Claim C10. For every list, visitor and world, \<^verbatim>\<open>print_sllist\<close> makes one call of
  \<^verbatim>\<open>printf\<close> with the text \<^verbatim>\<open>NULL\<close> and a newline after all the visitor calls; on a
  list with no node this call is all it does.
\<close>

theorem print_sllist_prints_NULL_last:
  "(\<exists>w1. print_sllist (Some l) print_func w = Inr (Some l, w1) \<and>
      trace w1 = trace (fold print_func (elements (head l)) w) @ [Printf ''NULL\<newline>'']) \<and>
   print_sllist (Some \<lparr>head = NULL, data_size = sz\<rparr>) print_func w =
     Inr (Some \<lparr>head = NULL, data_size = sz\<rparr>, w\<lparr>trace := trace w @ [Printf ''NULL\<newline>'']\<rparr>)"
  by (simp add: print_sllist_def print_sllist_loop_fold printf_def emit_def)

section \<open>The element size\<close>

lemma exec_data_size:
  "\<exists>l1 w1. exec c (Some l, w) = Inr (Some l1, w1) \<and> data_size l1 = data_size l"
proof (cases c)
  case (Insert_front data)
  then show ?thesis
    by (simp add: insert_front_def memcpy_def Let_def split: option.splits prod.splits)
next
  case (Insert_end data)
  then show ?thesis
    by (simp add: insert_end_def memcpy_def Let_def
        split: option.splits prod.splits sll_node_ptr.splits)
next
  case (Insert_at_index data index)
  then show ?thesis
    by (simp add: insert_at_index_def memcpy_def Let_def split: option.splits prod.splits)
next
  case Free_at_front
  then show ?thesis by (simp add: free_at_front_def split: sll_node_ptr.splits)
next
  case Free_at_end
  then show ?thesis by (simp add: free_at_end_def split: sll_node_ptr.splits)
next
  case (Free_at_index index)
  then show ?thesis
    by (simp add: free_at_index_def free_at_front_def split: sll_node_ptr.splits option.splits)
next
  case Sll_len
  then show ?thesis by (simp add: sll_len_def)
next
  case (Print_sllist print_func)
  then show ?thesis by (simp add: print_sllist_def)
qed

lemma insert_front_copies:
  "copies_with (data_size l) w (snd (insert_front (Some l) data w))"
  by (simp add: copies_with_def insert_front_def malloc_def memcpy_def free_def emit_def Let_def
      split: option.splits)

lemma insert_end_copies:
  "copies_with (data_size l) w (snd (insert_end (Some l) data w))"
  by (simp add: copies_with_def insert_end_def malloc_def memcpy_def free_def emit_def Let_def
      split: option.splits sll_node_ptr.splits)

lemma insert_at_index_copies:
  "copies_with (data_size l) w (snd (insert_at_index (Some l) data index w))"
  by (simp add: copies_with_def insert_at_index_def malloc_def memcpy_def free_def emit_def Let_def
      split: option.splits)

text \<open>
  Claim C9. \<^verbatim>\<open>sllist_create\<close> returns \<^verbatim>\<open>NULL\<close> or an empty list whose \<^verbatim>\<open>data_size\<close> is
  its argument; every call of an operation on a list (the three inserts, the three
  removes, \<^verbatim>\<open>sll_len\<close> and \<^verbatim>\<open>print_sllist\<close>) returns a list with the same
  \<^verbatim>\<open>data_size\<close>; and every size that an insert passes to the payload's \<^verbatim>\<open>malloc\<close> and
  to \<^verbatim>\<open>memcpy\<close> is the \<^verbatim>\<open>data_size\<close> of the list.
\<close>

theorem data_size_fixed:
  "(fst (sllist_create sz w) = None \<or>
    fst (sllist_create sz w) = Some \<lparr>head = NULL, data_size = sz\<rparr>) \<and>
   (\<exists>l1 w1. exec c (Some l, w) = Inr (Some l1, w1) \<and> data_size l1 = data_size l) \<and>
   copies_with (data_size l) w (snd (insert_front (Some l) data w)) \<and>
   copies_with (data_size l) w (snd (insert_end (Some l) data w)) \<and>
   copies_with (data_size l) w (snd (insert_at_index (Some l) data index w))"
proof -
  have "fst (sllist_create sz w) = None \<or>
    fst (sllist_create sz w) = Some \<lparr>head = NULL, data_size = sz\<rparr>"
    by (simp add: sllist_create_def malloc_def Let_def)
  with exec_data_size [of c l w] insert_front_copies [of l w data]
    insert_end_copies [of l w data] insert_at_index_copies [of l w data index]
  show ?thesis by blast
qed

end
